theory Spec2Isabelle
  imports Main "HOL-Library.Word" "HOL-Library.Monad_Syntax"
begin

section \<open>Machine types and the hardware interface\<close>

text \<open>
  The firmware is written for the CCS C compiler on a PIC16F874. There \<open>int8\<close> and
  \<open>int16\<close> are unsigned 8-bit and 16-bit integers, and with \<open>#device adc=8\<close> the call
  \<open>read_adc()\<close> returns an 8-bit sample. Arithmetic on words wraps around, the order on
  words is the unsigned one, and \<open>div\<close> on words is the truncating unsigned division.
\<close>

type_synonym int8 = "8 word"
type_synonym int16 = "16 word"

datatype pin = PIN_C0

datatype adc_ports = ALL_ANALOG

datatype adc_clock = ADC_CLOCK_INTERNAL

text \<open>
  Every call of a built-in that touches the hardware is recorded, in program order, as one
  event of a trace.
\<close>

datatype event =
    SetupAdcPorts adc_ports
  | SetupAdc adc_clock
  | SetAdcChannel nat
  | DelayUs nat
  | DelayMs nat
  | ReadAdc int8
  | OutputD int8
  | OutputLow pin
  | OutputHigh pin

text \<open>
  The analog input is infallible: \<open>adc s n\<close> is the sample that the converter delivers at
  the \<open>n\<close>-th read since reset, and \<open>reads s\<close> counts the reads made so far.
\<close>

record hw =
  adc :: "nat \<Rightarrow> int8"
  reads :: nat
  trace :: "event list"

definition emit_event :: "event \<Rightarrow> 'a hw_scheme \<Rightarrow> 'a hw_scheme" where
  "emit_event e s = s\<lparr>trace := trace s @ [e]\<rparr>"

definition setup_adc_ports :: "adc_ports \<Rightarrow> 'a hw_scheme \<Rightarrow> 'a hw_scheme" where
  "setup_adc_ports p s = emit_event (SetupAdcPorts p) s"

definition setup_adc :: "adc_clock \<Rightarrow> 'a hw_scheme \<Rightarrow> 'a hw_scheme" where
  "setup_adc c s = emit_event (SetupAdc c) s"

definition set_adc_channel :: "nat \<Rightarrow> 'a hw_scheme \<Rightarrow> 'a hw_scheme" where
  "set_adc_channel c s = emit_event (SetAdcChannel c) s"

definition delay_us :: "nat \<Rightarrow> 'a hw_scheme \<Rightarrow> 'a hw_scheme" where
  "delay_us n s = emit_event (DelayUs n) s"

definition delay_ms :: "nat \<Rightarrow> 'a hw_scheme \<Rightarrow> 'a hw_scheme" where
  "delay_ms n s = emit_event (DelayMs n) s"

definition output_d :: "int8 \<Rightarrow> 'a hw_scheme \<Rightarrow> 'a hw_scheme" where
  "output_d v s = emit_event (OutputD v) s"

definition output_low :: "pin \<Rightarrow> 'a hw_scheme \<Rightarrow> 'a hw_scheme" where
  "output_low p s = emit_event (OutputLow p) s"

definition output_high :: "pin \<Rightarrow> 'a hw_scheme \<Rightarrow> 'a hw_scheme" where
  "output_high p s = emit_event (OutputHigh p) s"

definition read_adc :: "'a hw_scheme \<Rightarrow> int8 \<times> 'a hw_scheme" where
  "read_adc s =
     (let v = adc s (reads s)
      in (v, emit_event (ReadAdc v) (s\<lparr>reads := Suc (reads s)\<rparr>)))"

text \<open>The bytes written to port D, in order, and the events that drive a pin.\<close>

fun outputs :: "event list \<Rightarrow> int8 list" where
  "outputs [] = []"
| "outputs (OutputD v # es) = v # outputs es"
| "outputs (e # es) = outputs es"

fun is_strobe :: "event \<Rightarrow> bool" where
  "is_strobe (OutputLow PIN_C0) = True"
| "is_strobe (OutputHigh PIN_C0) = True"
| "is_strobe e = False"

fun is_write :: "event \<Rightarrow> bool" where
  "is_write (OutputD v) = True"
| "is_write e = False"

text \<open>An input stream that delivers the listed samples first (and 0 afterwards).\<close>

definition stream_of :: "int8 list \<Rightarrow> nat \<Rightarrow> int8" where
  "stream_of xs n = (if n < length xs then xs ! n else 0)"

section \<open>The moving-average routine\<close>

text \<open>
  The sampling loop \<open>for(i = 0; i < 5; i++) { delay_ms(1); sum_voltage += read_adc(); }\<close>.
  The 8-bit sample is widened to 16 bits before it is added to the 16-bit sum.
\<close>

function avg_sample_loop :: "int8 \<Rightarrow> int16 \<Rightarrow> 'a hw_scheme \<Rightarrow> int16 \<times> 'a hw_scheme" where
  "avg_sample_loop i sum_voltage s =
     (if i < 5 then
        (let s1 = delay_ms 1 s;
             (v, s2) = read_adc s1
         in avg_sample_loop (i + 1) (sum_voltage + ucast v) s2)
      else (sum_voltage, s))"
  by pat_completeness auto
termination
proof (relation "measure (\<lambda>(i, sum_voltage, s). 5 - unat i)")
  show "wf (measure (\<lambda>(i :: int8, sum_voltage :: int16, s :: 'a hw_scheme). 5 - unat i))"
    by simp
next
  fix i :: int8 and sum_voltage :: int16 and s x :: "'a hw_scheme"
    and xa :: "int8 \<times> 'a hw_scheme" and xb :: int8 and y :: "'a hw_scheme"
  assume "i < 5"
  then have "unat i < 5"
    by (simp add: word_less_nat_alt)
  then have "unat (i + 1) = unat i + 1"
    by (simp add: unat_word_ariths)
  with \<open>unat i < 5\<close>
  show "((i + 1, sum_voltage + ucast xb, y), (i, sum_voltage, s))
          \<in> measure (\<lambda>(i, sum_voltage, s). 5 - unat i)"
    by simp
qed

declare avg_sample_loop.simps [simp del]

text \<open>
  One pass through the body of \<open>while(1)\<close>: sample, divide the 16-bit sum by 5, narrow the
  quotient to the 8-bit \<open>avg_voltage\<close>, write it to port D and pulse the strobe.
\<close>

definition avg_voltage_of :: "int16 \<Rightarrow> int8" where
  "avg_voltage_of sum_voltage = ucast (sum_voltage div 5)"

definition avg_iteration :: "'a hw_scheme \<Rightarrow> 'a hw_scheme" where
  "avg_iteration s =
     (let (sum_voltage, s1) = avg_sample_loop 0 0 s;
          avg_voltage = avg_voltage_of sum_voltage;
          s2 = output_d avg_voltage s1;
          s3 = output_low PIN_C0 s2;
          s4 = delay_ms 10 s3;
          s5 = output_high PIN_C0 s4
      in s5)"

definition avg_setup :: "'a hw_scheme \<Rightarrow> 'a hw_scheme" where
  "avg_setup s =
     output_high PIN_C0 (delay_us 100 (set_adc_channel 0
       (setup_adc ADC_CLOCK_INTERNAL (setup_adc_ports ALL_ANALOG s))))"

text \<open>
  \<open>while(1)\<close> never ends; \<open>avg_main n\<close> is the program observed for its first \<open>n\<close> passes
  through the loop body.
\<close>

fun avg_while :: "nat \<Rightarrow> 'a hw_scheme \<Rightarrow> 'a hw_scheme" where
  "avg_while 0 s = s"
| "avg_while (Suc n) s = avg_while n (avg_iteration s)"

definition avg_main :: "nat \<Rightarrow> 'a hw_scheme \<Rightarrow> 'a hw_scheme" where
  "avg_main n s = avg_while n (avg_setup s)"

section \<open>The median routine\<close>

definition NUM_SAMPLES :: nat where
  "NUM_SAMPLES = 10"

text \<open>
  \<open>median\<close> sorts its three parameters in place with three compare-and-swap steps, in the
  order \<open>(a, b)\<close>, \<open>(a, c)\<close>, \<open>(b, c)\<close>, and returns \<open>b\<close>.
\<close>

definition median :: "int8 \<Rightarrow> int8 \<Rightarrow> int8 \<Rightarrow> int8" where
  "median a b c =
     (let (a, b) = (if a > b then (b, a) else (a, b));
          (a, c) = (if a > c then (c, a) else (a, c));
          (b, c) = (if b > c then (c, b) else (b, c))
      in b)"

text \<open>
  The state of the median program adds the array \<open>voltage\<close>, declared with
  \<open>NUM_SAMPLES + 2\<close> elements and never initialised, to the hardware state. C does not check
  an index; here an access outside the array ends the run with \<open>None\<close>, and every access
  inside it is logged.
\<close>

datatype access = Load nat | Store nat

record med = hw +
  voltage :: "int8 list"
  accesses :: "access list"

definition declared :: "med \<Rightarrow> bool" where
  "declared s \<longleftrightarrow> length (voltage s) = NUM_SAMPLES + 2"

definition load :: "nat \<Rightarrow> med \<Rightarrow> (int8 \<times> med) option" where
  "load k s =
     (if k < length (voltage s)
      then Some (voltage s ! k, s\<lparr>accesses := accesses s @ [Load k]\<rparr>)
      else None)"

definition store :: "nat \<Rightarrow> int8 \<Rightarrow> med \<Rightarrow> med option" where
  "store k v s =
     (if k < length (voltage s)
      then Some (s\<lparr>voltage := (voltage s)[k := v], accesses := accesses s @ [Store k]\<rparr>)
      else None)"

text \<open>
  The sampling loop
  \<open>for (i = 1; i <= NUM_SAMPLES; i++) { delay_ms(1); voltage[i] = read_adc(); }\<close>
  with its 8-bit counter.
\<close>

function med_sample_loop :: "int8 \<Rightarrow> med \<Rightarrow> med option" where
  "med_sample_loop i s =
     (if i \<le> of_nat NUM_SAMPLES then
        (let s1 = delay_ms 1 s;
             (v, s2) = read_adc s1
         in case store (unat i) v s2 of
              None \<Rightarrow> None
            | Some s3 \<Rightarrow> med_sample_loop (i + 1) s3)
      else Some s)"
  by pat_completeness auto
termination
proof (relation "measure (\<lambda>(i, s). Suc NUM_SAMPLES - unat i)")
  show "wf (measure (\<lambda>(i :: int8, s :: med). Suc NUM_SAMPLES - unat i))"
    by simp
next
  fix i :: int8 and s s3 :: med
  assume "i \<le> of_nat NUM_SAMPLES"
  then have le: "unat i \<le> 10"
    by (simp add: word_le_nat_alt NUM_SAMPLES_def)
  then have "unat (i + 1) = unat i + 1"
    by (simp add: unat_word_ariths)
  with le show "((i + 1, s3), (i, s)) \<in> measure (\<lambda>(i, s). Suc NUM_SAMPLES - unat i)"
    by (simp add: NUM_SAMPLES_def)
qed

declare med_sample_loop.simps [simp del]

text \<open>
  The padding \<open>voltage[0] = voltage[1]; voltage[NUM_SAMPLES + 1] = voltage[NUM_SAMPLES];\<close>.
\<close>

definition med_pad :: "med \<Rightarrow> med option" where
  "med_pad s =
     do {
       (v, s1) \<leftarrow> load 1 s;
       s2 \<leftarrow> store 0 v s1;
       (w, s3) \<leftarrow> load NUM_SAMPLES s2;
       store (NUM_SAMPLES + 1) w s3
     }"

text \<open>
  The filtering loop: for \<open>i = 0, \<dots>, NUM_SAMPLES - 1\<close> the median of
  \<open>voltage[i]\<close>, \<open>voltage[i + 1]\<close>, \<open>voltage[i + 2]\<close> is written to port D and the
  strobe is pulsed. The indices are computed in the 8-bit type of \<open>i\<close>.
\<close>

function med_filter_loop :: "int8 \<Rightarrow> med \<Rightarrow> med option" where
  "med_filter_loop i s =
     (if i < of_nat NUM_SAMPLES then
        (case load (unat i) s of
           None \<Rightarrow> None
         | Some (a, s1) \<Rightarrow>
        (case load (unat (i + 1)) s1 of
           None \<Rightarrow> None
         | Some (b, s2) \<Rightarrow>
        (case load (unat (i + 2)) s2 of
           None \<Rightarrow> None
         | Some (c, s3) \<Rightarrow>
             (let median_value = median a b c;
                  s4 = output_d median_value s3;
                  s5 = output_low PIN_C0 s4;
                  s6 = delay_ms 10 s5;
                  s7 = output_high PIN_C0 s6
              in med_filter_loop (i + 1) s7))))
      else Some s)"
  by pat_completeness auto
termination
proof (relation "measure (\<lambda>(i, s). NUM_SAMPLES - unat i)")
  show "wf (measure (\<lambda>(i :: int8, s :: med). NUM_SAMPLES - unat i))"
    by simp
next
  fix i :: int8 and s s7 :: med
  assume "i < of_nat NUM_SAMPLES"
  then have lt: "unat i < 10"
    by (simp add: word_less_nat_alt NUM_SAMPLES_def)
  then have "unat (i + 1) = unat i + 1"
    by (simp add: unat_word_ariths)
  with lt show "((i + 1, s7), (i, s)) \<in> measure (\<lambda>(i, s). NUM_SAMPLES - unat i)"
    by (simp add: NUM_SAMPLES_def)
qed

declare med_filter_loop.simps [simp del]

text \<open>The first two phases of the loop body, and the whole body.\<close>

definition med_sample_and_pad :: "med \<Rightarrow> med option" where
  "med_sample_and_pad s = do { s1 \<leftarrow> med_sample_loop 1 s; med_pad s1 }"

definition med_iteration :: "med \<Rightarrow> med option" where
  "med_iteration s = do { s1 \<leftarrow> med_sample_and_pad s; med_filter_loop 0 s1 }"

definition med_setup :: "med \<Rightarrow> med" where
  "med_setup s =
     output_high PIN_C0 (delay_us 100 (set_adc_channel 0
       (setup_adc ADC_CLOCK_INTERNAL (setup_adc_ports ALL_ANALOG s))))"

fun med_while :: "nat \<Rightarrow> med \<Rightarrow> med option" where
  "med_while 0 s = Some s"
| "med_while (Suc n) s = do { s1 \<leftarrow> med_iteration s; med_while n s1 }"

definition med_main :: "nat \<Rightarrow> med \<Rightarrow> med option" where
  "med_main n s = med_while n (med_setup s)"

section \<open>Notions used to state the properties\<close>

text \<open>The samples that the next \<open>n\<close> reads of the converter deliver, in order.\<close>

definition samples_read :: "'a hw_scheme \<Rightarrow> nat \<Rightarrow> int8 list" where
  "samples_read s n = map (\<lambda>k. adc s (reads s + k)) [0..<n]"

text \<open>The events of reading a run of samples, each read 1 ms after the previous one.\<close>

definition sampling :: "int8 list \<Rightarrow> event list" where
  "sampling xs = concat (map (\<lambda>x. [DelayMs 1, ReadAdc x]) xs)"

text \<open>A window with its first and its last sample duplicated at the edges.\<close>

definition padded_window :: "int8 list \<Rightarrow> int8 list" where
  "padded_window xs = hd xs # xs @ [last xs]"

text \<open>The index that an array access touches.\<close>

fun index_of :: "access \<Rightarrow> nat" where
  "index_of (Load k) = k"
| "index_of (Store k) = k"

text \<open>
  A sequence of events has the strobe toggled before and after each write when every
  write to port D has an event driving \<open>PIN_C0\<close> among the events before it and another
  among the events after it.
\<close>

fun strobed_around :: "event list \<Rightarrow> event list \<Rightarrow> bool" where
  "strobed_around past [] = True"
| "strobed_around past (e # future) =
     ((if is_write e then list_ex is_strobe past \<and> list_ex is_strobe future else True)
      \<and> strobed_around (past @ [e]) future)"

definition toggled_before_and_after :: "event list \<Rightarrow> bool" where
  "toggled_before_and_after evs = strobed_around [] evs"

text \<open>
  The pulse of the code: every write to port D is followed at once by \<open>PIN_C0\<close> driven
  low, a delay of 10 ms and \<open>PIN_C0\<close> driven high.
\<close>

fun pulse_follows :: "event list \<Rightarrow> bool" where
  "pulse_follows [] = True"
| "pulse_follows (e # es) =
     ((if is_write e then take 3 es = [OutputLow PIN_C0, DelayMs 10, OutputHigh PIN_C0] else True)
      \<and> pulse_follows es)"

text \<open>The invariant of the trace at the head of \<open>while(1)\<close>.\<close>

definition strobe_ok :: "event list \<Rightarrow> bool" where
  "strobe_ok evs \<longleftrightarrow> strobed_around [] evs \<and> list_ex is_strobe evs \<and> pulse_follows evs"

text \<open>What the code does when it emits \<open>v\<close>: the write, then one low pulse of 10 ms.\<close>

definition emission :: "int8 \<Rightarrow> event list" where
  "emission v = [OutputD v, OutputLow PIN_C0, DelayMs 10, OutputHigh PIN_C0]"

text \<open>States after reset on which the examples are run.\<close>

definition avg_start :: "int8 list \<Rightarrow> hw" where
  "avg_start xs = \<lparr>adc = stream_of xs, reads = 0, trace = []\<rparr>"

definition med_start :: "int8 list \<Rightarrow> int8 list \<Rightarrow> med" where
  "med_start xs garbage =
     \<lparr>adc = stream_of xs, reads = 0, trace = [], voltage = garbage, accesses = []\<rparr>"

text \<open>
  Array contents left over from before the loop body runs, and a non-decreasing window.
\<close>

definition stale :: "int8 list" where
  "stale = [9, 9, 9, 9, 9, 9, 9, 9, 9, 9, 9, 9]"

definition rising :: "int8 list" where
  "rising = [1, 1, 2, 3, 4, 5, 6, 7, 8, 9, 10, 10]"

section \<open>Auxiliary facts\<close>

lemma plus_Suc:
  fixes n :: nat
  shows "n + 2 = Suc (Suc n)"
    and "n + 3 = Suc (Suc (Suc n))"
    and "n + 4 = Suc (Suc (Suc (Suc n)))"
    and "n + 5 = Suc (Suc (Suc (Suc (Suc n))))"
    and "n + 6 = Suc (Suc (Suc (Suc (Suc (Suc n)))))"
    and "n + 7 = Suc (Suc (Suc (Suc (Suc (Suc (Suc n))))))"
    and "n + 8 = Suc (Suc (Suc (Suc (Suc (Suc (Suc (Suc n)))))))"
    and "n + 9 = Suc (Suc (Suc (Suc (Suc (Suc (Suc (Suc (Suc n))))))))"
    and "n + 10 = Suc (Suc (Suc (Suc (Suc (Suc (Suc (Suc (Suc (Suc n)))))))))"
  by simp_all

lemma outputs_append: "outputs (xs @ ys) = outputs xs @ outputs ys"
  by (induction xs rule: outputs.induct) simp_all

lemma outputs_sampling: "outputs (sampling xs) = []"
  by (induction xs) (simp_all add: sampling_def)

lemma outputs_emission: "outputs (emission v) = [v]"
  by (simp add: emission_def)

subsection \<open>Widening, narrowing and the range of a sample\<close>

lemma unat_int8_le: "unat (a :: int8) \<le> 255"
  using unsigned_less [of a, where 'a = nat] by simp

lemma unat_ucast_8_16: "unat (ucast (a :: int8) :: int16) = unat a"
proof -
  have "unat a < 2 ^ 8"
    using unsigned_less [of a, where 'a = nat] by simp
  then show ?thesis
    by (simp add: unsigned_ucast_eq take_bit_nat_eq_self)
qed

lemma unat_sum5:
  fixes a b c d e :: int8
  shows "unat (ucast a + ucast b + ucast c + ucast d + ucast e :: int16)
           = unat a + unat b + unat c + unat d + unat e"
  using unat_int8_le [of a] unat_int8_le [of b] unat_int8_le [of c]
    unat_int8_le [of d] unat_int8_le [of e]
  by (simp add: unat_word_ariths unat_ucast_8_16)

lemma unat_avg_voltage_of:
  assumes "unat sum_voltage \<le> 1275"
  shows "unat (avg_voltage_of sum_voltage) = unat sum_voltage div 5"
proof -
  have "unat (sum_voltage div 5) = unat sum_voltage div 5"
    by (simp add: unat_div)
  with assms have "unat (sum_voltage div 5) < 2 ^ 8"
    by simp
  then show ?thesis
    unfolding avg_voltage_of_def
    by (simp add: unsigned_ucast_eq take_bit_nat_eq_self unat_div)
qed

subsection \<open>The moving-average loop, unrolled\<close>

lemma avg_sample_loop_unfold:
  "avg_sample_loop 0 0 s =
     (ucast (adc s (reads s)) + ucast (adc s (reads s + 1)) + ucast (adc s (reads s + 2))
        + ucast (adc s (reads s + 3)) + ucast (adc s (reads s + 4)),
      s\<lparr>reads := reads s + 5,
        trace := trace s @
          [DelayMs 1, ReadAdc (adc s (reads s)),
           DelayMs 1, ReadAdc (adc s (reads s + 1)),
           DelayMs 1, ReadAdc (adc s (reads s + 2)),
           DelayMs 1, ReadAdc (adc s (reads s + 3)),
           DelayMs 1, ReadAdc (adc s (reads s + 4))]\<rparr>)"
  by (simp add: avg_sample_loop.simps delay_ms_def read_adc_def emit_event_def Let_def
      plus_Suc)

lemma avg_iteration_unfold:
  "avg_iteration s =
     s\<lparr>reads := reads s + 5,
       trace := trace s @ sampling (samples_read s 5)
         @ emission (avg_voltage_of (fst (avg_sample_loop 0 0 s)))\<rparr>"
  by (simp add: avg_iteration_def avg_sample_loop_unfold output_d_def output_low_def
      output_high_def delay_ms_def emit_event_def sampling_def samples_read_def emission_def
      upt_rec [of 0] upt_rec [of "Suc _"] plus_Suc)

lemma unat_avg_sum:
  "unat (fst (avg_sample_loop 0 0 s)) = sum_list (map unat (samples_read s 5))"
  by (simp add: avg_sample_loop_unfold unat_sum5 samples_read_def
      upt_rec [of 0] upt_rec [of "Suc _"] plus_Suc)

lemma sum5_le: "sum_list (map unat (samples_read s 5)) \<le> 1275"
  using unat_int8_le [of "adc s (reads s)"] unat_int8_le [of "adc s (reads s + 1)"]
    unat_int8_le [of "adc s (reads s + 2)"] unat_int8_le [of "adc s (reads s + 3)"]
    unat_int8_le [of "adc s (reads s + 4)"]
  by (simp add: samples_read_def upt_rec [of 0] upt_rec [of "Suc _"] plus_Suc)

section \<open>The moving-average routine: results\<close>

text \<open>
  Claim C1. One pass through the loop body of the moving-average routine writes exactly one
  byte to the output port, and that byte is the sum of the five samples read in the pass
  divided by 5 and truncated. For the input streams \<open>[2,4,6,8,10]\<close>,
  \<open>[10,20,30,40,50]\<close> and \<open>[1,1,1,1,2]\<close> the byte is 6, 30 and 1.
\<close>

theorem avg_iteration_emits_truncated_mean:
  "(\<exists>v. outputs (trace (avg_iteration s)) = outputs (trace s) @ [v]
        \<and> unat v = sum_list (map unat (samples_read s 5)) div 5)
   \<and> outputs (trace (avg_iteration (avg_start [2, 4, 6, 8, 10]))) = [6]
   \<and> outputs (trace (avg_iteration (avg_start [10, 20, 30, 40, 50]))) = [30]
   \<and> outputs (trace (avg_iteration (avg_start [1, 1, 1, 1, 2]))) = [1]"
proof -
  have "unat (avg_voltage_of (fst (avg_sample_loop 0 0 s)))
          = sum_list (map unat (samples_read s 5)) div 5"
    using unat_avg_voltage_of [of "fst (avg_sample_loop 0 0 s)"] sum5_le [of s]
    by (simp add: unat_avg_sum)
  then have general: "\<exists>v. outputs (trace (avg_iteration s)) = outputs (trace s) @ [v]
        \<and> unat v = sum_list (map unat (samples_read s 5)) div 5"
    by (simp add: avg_iteration_unfold outputs_append outputs_sampling outputs_emission)
  have ex1: "outputs (trace (avg_iteration (avg_start [2, 4, 6, 8, 10]))) = [6]"
    by (simp add: avg_iteration_unfold outputs_append outputs_sampling outputs_emission
        avg_sample_loop_unfold avg_start_def stream_of_def avg_voltage_of_def)
  have ex2: "outputs (trace (avg_iteration (avg_start [10, 20, 30, 40, 50]))) = [30]"
    by (simp add: avg_iteration_unfold outputs_append outputs_sampling outputs_emission
        avg_sample_loop_unfold avg_start_def stream_of_def avg_voltage_of_def)
  have ex3: "outputs (trace (avg_iteration (avg_start [1, 1, 1, 1, 2]))) = [1]"
    by (simp add: avg_iteration_unfold outputs_append outputs_sampling outputs_emission
        avg_sample_loop_unfold avg_start_def stream_of_def avg_voltage_of_def)
  from general ex1 ex2 ex3 show ?thesis by blast
qed

text \<open>
  Claim C5. The 16-bit running sum of the sampling loop holds the exact sum of the five 8-bit
  samples: nothing wraps around, because the sum is at most \<open>5 * 255 = 1275\<close>, which is
  below \<open>2 ^ 16\<close>. The bound is reached when all five samples are 255.
\<close>

theorem avg_sum_exact:
  "unat (fst (avg_sample_loop 0 0 s)) = sum_list (map unat (samples_read s 5))
   \<and> sum_list (map unat (samples_read s 5)) \<le> 5 * 255
   \<and> (5 * 255 :: nat) < 2 ^ 16
   \<and> unat (fst (avg_sample_loop 0 0 (avg_start [255, 255, 255, 255, 255]))) = 1275"
proof -
  have "unat (fst (avg_sample_loop 0 0 (avg_start [255, 255, 255, 255, 255]))) = 1275"
    by (simp add: avg_sample_loop_unfold avg_start_def stream_of_def)
  with sum5_le [of s] show ?thesis
    by (simp add: unat_avg_sum)
qed

text \<open>
  Claim C8. The quotient of the 16-bit sum by 5 is at most 255, so narrowing it to the 8-bit
  \<open>avg_voltage\<close> loses nothing: widening the byte again gives the quotient back, and this
  byte is the one written to the output port.
\<close>

theorem avg_narrowing_exact:
  "unat (fst (avg_sample_loop 0 0 s) div 5) \<le> 255
   \<and> ucast (avg_voltage_of (fst (avg_sample_loop 0 0 s))) = fst (avg_sample_loop 0 0 s) div 5
   \<and> outputs (trace (avg_iteration s))
       = outputs (trace s) @ [avg_voltage_of (fst (avg_sample_loop 0 0 s))]"
proof -
  let ?sum = "fst (avg_sample_loop 0 0 s)"
  have le: "unat ?sum \<le> 1275"
    using sum5_le [of s] by (simp add: unat_avg_sum)
  then have q: "unat (?sum div 5) \<le> 255"
    by (simp add: unat_div)
  have "unat (ucast (avg_voltage_of ?sum) :: int16) = unat (?sum div 5)"
    using unat_avg_voltage_of [OF le] by (simp add: unat_ucast_8_16 unat_div)
  then have "(ucast (avg_voltage_of ?sum) :: int16) = ?sum div 5"
    by (simp only: word_unat_eq_iff)
  with q show ?thesis
    by (simp add: avg_iteration_unfold outputs_append outputs_sampling outputs_emission)
qed

section \<open>The median function: results\<close>

lemma median_sorted: "a \<le> b \<Longrightarrow> b \<le> c \<Longrightarrow> median a b c = b"
  by (auto simp: median_def)

text \<open>
  Claim C2. For all 8-bit \<open>a\<close>, \<open>b\<close>, \<open>c\<close> the function \<open>median\<close> returns the middle
  element of the three: the second element of the sorted triple, which is one of the inputs,
  with at least two inputs at or below it and at least two at or above it. When two inputs
  are equal it returns the repeated value. \<open>median(5,5,9) = 5\<close> and \<open>median(3,7,5) = 5\<close>.
\<close>

theorem median_returns_middle:
  "median a b c = sort [a, b, c] ! 1
   \<and> median a b c \<in> {a, b, c}
   \<and> 2 \<le> length (filter (\<lambda>x. x \<le> median a b c) [a, b, c])
   \<and> 2 \<le> length (filter (\<lambda>x. median a b c \<le> x) [a, b, c])
   \<and> (a = b \<or> a = c \<longrightarrow> median a b c = a)
   \<and> (b = c \<longrightarrow> median a b c = b)
   \<and> median 5 5 9 = 5 \<and> median 3 7 5 = 5"
  by (auto simp: median_def)

theorem median_returns_middle_witness:
  "median 5 5 9 = sort [5, 5, 9 :: int8] ! 1
   \<and> ((5 :: int8) = 5 \<or> (5 :: int8) = 9) \<and> median 5 5 9 = 5
   \<and> (7 :: int8) = 7 \<and> median 2 7 7 = 7"
  using median_returns_middle [of 5 5 9] median_returns_middle [of 2 7 7]
  by simp

text \<open>
  Claim C10. \<open>median\<close> is symmetric: it returns the same value for all six orders of its
  three arguments, and \<open>median(x,x,x) = x\<close>.
\<close>

theorem median_symmetric:
  "median a b c = median a c b
   \<and> median a b c = median b a c
   \<and> median a b c = median b c a
   \<and> median a b c = median c a b
   \<and> median a b c = median c b a
   \<and> median x x x = x"
  by (auto simp: median_def)

section \<open>The median routine: results\<close>

subsection \<open>The loops, unrolled\<close>

lemma list12:
  assumes "length xs = 12"
  obtains a0 a1 a2 a3 a4 a5 a6 a7 a8 a9 a10 a11
  where "xs = [a0, a1, a2, a3, a4, a5, a6, a7, a8, a9, a10, a11]"
  using assms by (auto simp: eval_nat_numeral length_Suc_conv)

lemma samples_read_10:
  "samples_read s 10 =
     [adc s (reads s), adc s (reads s + 1), adc s (reads s + 2), adc s (reads s + 3),
      adc s (reads s + 4), adc s (reads s + 5), adc s (reads s + 6), adc s (reads s + 7),
      adc s (reads s + 8), adc s (reads s + 9)]"
  by (simp add: samples_read_def upt_rec [of 0] upt_rec [of "Suc _"] plus_Suc)

lemma med_sample_loop_unfold:
  assumes "voltage s = [a0, a1, a2, a3, a4, a5, a6, a7, a8, a9, a10, a11]"
  shows "med_sample_loop 1 s =
     Some (s\<lparr>reads := reads s + 10,
        trace := trace s @ sampling (samples_read s 10),
        voltage := a0 # samples_read s 10 @ [a11],
        accesses := accesses s @
          [Store 1, Store 2, Store 3, Store 4, Store 5, Store 6, Store 7, Store 8, Store 9,
           Store 10]\<rparr>)"
  using assms
  by (simp add: med_sample_loop.simps store_def delay_ms_def read_adc_def emit_event_def
      Let_def NUM_SAMPLES_def plus_Suc samples_read_10 sampling_def)

lemma med_pad_unfold:
  assumes "voltage s = [a0, a1, a2, a3, a4, a5, a6, a7, a8, a9, a10, a11]"
  shows "med_pad s =
     Some (s\<lparr>voltage := [a1, a1, a2, a3, a4, a5, a6, a7, a8, a9, a10, a10],
        accesses := accesses s @ [Load 1, Store 0, Load 10, Store 11]\<rparr>)"
  using assms
  by (simp add: med_pad_def load_def store_def NUM_SAMPLES_def)

lemma med_sample_and_pad_unfold:
  assumes "declared s"
  shows "med_sample_and_pad s =
     Some (s\<lparr>reads := reads s + 10,
        trace := trace s @ sampling (samples_read s 10),
        voltage := padded_window (samples_read s 10),
        accesses := accesses s @
          [Store 1, Store 2, Store 3, Store 4, Store 5, Store 6, Store 7, Store 8, Store 9,
           Store 10, Load 1, Store 0, Load 10, Store 11]\<rparr>)"
proof -
  from assms have "length (voltage s) = 12"
    by (simp add: declared_def NUM_SAMPLES_def)
  then obtain a0 a1 a2 a3 a4 a5 a6 a7 a8 a9 a10 a11
    where v: "voltage s = [a0, a1, a2, a3, a4, a5, a6, a7, a8, a9, a10, a11]"
    by (rule list12)
  show ?thesis
    unfolding med_sample_and_pad_def med_sample_loop_unfold [OF v]
    by (simp add: med_pad_unfold [where ?a0.0 = a0 and ?a11.0 = a11] samples_read_10 padded_window_def)
qed

lemma med_filter_loop_unfold:
  assumes "voltage s = [p0, p1, p2, p3, p4, p5, p6, p7, p8, p9, p10, p11]"
  shows "med_filter_loop 0 s =
     Some (s\<lparr>trace := trace s @ concat (map emission
          [median p0 p1 p2, median p1 p2 p3, median p2 p3 p4, median p3 p4 p5,
           median p4 p5 p6, median p5 p6 p7, median p6 p7 p8, median p7 p8 p9,
           median p8 p9 p10, median p9 p10 p11]),
        accesses := accesses s @
          [Load 0, Load 1, Load 2, Load 1, Load 2, Load 3, Load 2, Load 3, Load 4,
           Load 3, Load 4, Load 5, Load 4, Load 5, Load 6, Load 5, Load 6, Load 7,
           Load 6, Load 7, Load 8, Load 7, Load 8, Load 9, Load 8, Load 9, Load 10,
           Load 9, Load 10, Load 11]\<rparr>)"
  using assms
  by (simp add: med_filter_loop.simps load_def output_d_def output_low_def output_high_def
      delay_ms_def emit_event_def Let_def NUM_SAMPLES_def emission_def)

lemma declared_med_start: "declared (med_start xs stale)"
  by (simp add: declared_def med_start_def stale_def NUM_SAMPLES_def)

lemma padded_window_10:
  "padded_window [x0, x1, x2, x3, x4, x5, x6, x7, x8, x9]
     = [x0, x0, x1, x2, x3, x4, x5, x6, x7, x8, x9, x9]"
  by (simp add: padded_window_def)

lemma med_iteration_unfold:
  assumes "declared s"
  shows "med_iteration s =
     Some (s\<lparr>reads := reads s + 10,
        trace := trace s @ sampling (samples_read s 10) @ concat (map emission
          (map (\<lambda>i. median (padded_window (samples_read s 10) ! i)
                  (padded_window (samples_read s 10) ! (i + 1))
                  (padded_window (samples_read s 10) ! (i + 2))) [0..<10])),
        voltage := padded_window (samples_read s 10),
        accesses := accesses s @
          [Store 1, Store 2, Store 3, Store 4, Store 5, Store 6, Store 7, Store 8, Store 9,
           Store 10, Load 1, Store 0, Load 10, Store 11,
           Load 0, Load 1, Load 2, Load 1, Load 2, Load 3, Load 2, Load 3, Load 4,
           Load 3, Load 4, Load 5, Load 4, Load 5, Load 6, Load 5, Load 6, Load 7,
           Load 6, Load 7, Load 8, Load 7, Load 8, Load 9, Load 8, Load 9, Load 10,
           Load 9, Load 10, Load 11]\<rparr>)"
proof -
  let ?s1 = "s\<lparr>reads := reads s + 10,
        trace := trace s @ sampling (samples_read s 10),
        voltage := padded_window (samples_read s 10),
        accesses := accesses s @
          [Store 1, Store 2, Store 3, Store 4, Store 5, Store 6, Store 7, Store 8, Store 9,
           Store 10, Load 1, Store 0, Load 10, Store 11]\<rparr>"
  have sp: "med_sample_and_pad s = Some ?s1"
    by (rule med_sample_and_pad_unfold [OF assms])
  have v: "voltage ?s1 =
     [adc s (reads s), adc s (reads s), adc s (reads s + 1), adc s (reads s + 2),
      adc s (reads s + 3), adc s (reads s + 4), adc s (reads s + 5), adc s (reads s + 6),
      adc s (reads s + 7), adc s (reads s + 8), adc s (reads s + 9), adc s (reads s + 9)]"
    by (simp add: samples_read_10 padded_window_10)
  show ?thesis
    unfolding med_iteration_def sp
    using med_filter_loop_unfold [OF v]
    by (simp add: samples_read_10 padded_window_10 upt_rec [of 0] upt_rec [of "Suc _"])
qed

text \<open>
  The model does detect an access outside the array: with only 11 elements the store to
  \<open>voltage[NUM_SAMPLES + 1]\<close> ends the run.
\<close>

lemma med_iteration_short_array:
  "med_iteration (med_start [1, 9, 2, 8, 3, 7, 4, 6, 5, 5] [9, 9, 9, 9, 9, 9, 9, 9, 9, 9, 9]) = None"
  by (simp add: med_iteration_def med_sample_and_pad_def med_sample_loop.simps store_def load_def med_pad_def
      delay_ms_def read_adc_def emit_event_def Let_def NUM_SAMPLES_def med_start_def)

subsection \<open>Outputs, padding, monotonicity and array bounds\<close>

text \<open>
  Claim C3. One pass through the loop body of the median routine, on the declared
  12-element array, reads 10 samples and emits exactly 10 values; the \<open>i\<close>-th of them
  (\<open>i = 0, \<dots>, 9\<close>) is the median of the elements \<open>i\<close>, \<open>i + 1\<close>, \<open>i + 2\<close> of the padded
  window, which is the 10 samples with the first and the last one duplicated.
\<close>

theorem med_iteration_emits_triplet_medians:
  assumes "declared s"
  shows "\<exists>s'. med_iteration s = Some s'
     \<and> voltage s' = padded_window (samples_read s 10)
     \<and> outputs (trace s') = outputs (trace s) @
          map (\<lambda>i. median (voltage s' ! i) (voltage s' ! (i + 1)) (voltage s' ! (i + 2))) [0..<10]
     \<and> length (outputs (trace s')) = length (outputs (trace s)) + 10"
  unfolding med_iteration_unfold [OF assms]
  by (simp add: outputs_append outputs_sampling upt_rec [of 0] upt_rec [of "Suc _"] outputs_emission)

theorem med_iteration_emits_triplet_medians_witness:
  "declared (med_start [1, 9, 2, 8, 3, 7, 4, 6, 5, 5] stale)
   \<and> (\<exists>s'. med_iteration (med_start [1, 9, 2, 8, 3, 7, 4, 6, 5, 5] stale) = Some s'
         \<and> voltage s' = [1, 1, 9, 2, 8, 3, 7, 4, 6, 5, 5, 5]
         \<and> outputs (trace s') = [1, 2, 8, 3, 7, 4, 6, 5, 5, 5])"
proof -
  let ?s = "med_start [1, 9, 2, 8, 3, 7, 4, 6, 5, 5] stale"
  have d: "declared ?s"
    by (rule declared_med_start)
  have r: "samples_read ?s 10 = [1, 9, 2, 8, 3, 7, 4, 6, 5, 5]"
    by (simp add: samples_read_10 med_start_def stream_of_def)
  from med_iteration_emits_triplet_medians [OF d] obtain s' where s': "med_iteration ?s = Some s'"
    "voltage s' = padded_window (samples_read ?s 10)"
    "outputs (trace s') = outputs (trace ?s) @
       map (\<lambda>i. median (voltage s' ! i) (voltage s' ! (i + 1)) (voltage s' ! (i + 2))) [0..<10]"
    by blast
  have v: "voltage s' = [1, 1, 9, 2, 8, 3, 7, 4, 6, 5, 5, 5]"
    using s'(2) by (simp add: r padded_window_10)
  have "outputs (trace s') = [1, 2, 8, 3, 7, 4, 6, 5, 5, 5]"
    unfolding s'(3) v
    by (simp add: med_start_def upt_rec [of 0] upt_rec [of "Suc _"] median_def)
  with d s'(1) v show ?thesis by blast
qed

text \<open>
  Claim C4. After the sampling and padding phase the array has 12 elements, element 0 equals
  element 1 and element 11 equals element 10.
\<close>

theorem med_padding_mirrors_edges:
  assumes "declared s"
  shows "\<exists>s'. med_sample_and_pad s = Some s'
     \<and> length (voltage s') = 12
     \<and> voltage s' ! 0 = voltage s' ! 1
     \<and> voltage s' ! 11 = voltage s' ! 10
     \<and> voltage s' = padded_window (samples_read s 10)"
  unfolding med_sample_and_pad_unfold [OF assms]
  by (simp add: samples_read_10 padded_window_10)

theorem med_padding_mirrors_edges_witness:
  "declared (med_start [1, 9, 2, 8, 3, 7, 4, 6, 5, 5] stale)
   \<and> (\<exists>s'. med_sample_and_pad (med_start [1, 9, 2, 8, 3, 7, 4, 6, 5, 5] stale) = Some s'
         \<and> voltage s' = [1, 1, 9, 2, 8, 3, 7, 4, 6, 5, 5, 5])"
proof -
  let ?s = "med_start [1, 9, 2, 8, 3, 7, 4, 6, 5, 5] stale"
  have d: "declared ?s"
    by (rule declared_med_start)
  have r: "samples_read ?s 10 = [1, 9, 2, 8, 3, 7, 4, 6, 5, 5]"
    by (simp add: samples_read_10 med_start_def stream_of_def)
  from med_padding_mirrors_edges [OF d] obtain s' where s': "med_sample_and_pad ?s = Some s'"
    "voltage s' = padded_window (samples_read ?s 10)"
    by blast
  have "voltage s' = [1, 1, 9, 2, 8, 3, 7, 4, 6, 5, 5, 5]"
    using s'(2) by (simp add: r padded_window_10)
  with d s'(1) show ?thesis by blast
qed

text \<open>
  Claim C6. On a window of 12 elements in non-decreasing order the filtering loop emits 10
  values in non-decreasing order (they are the elements 1 to 10 of the window).
\<close>

theorem med_filter_monotone:
  assumes "declared s" and "sorted (voltage s)"
  shows "\<exists>s'. med_filter_loop 0 s = Some s'
     \<and> outputs (trace s') = outputs (trace s) @ take 10 (tl (voltage s))
     \<and> length (take 10 (tl (voltage s))) = 10
     \<and> sorted (take 10 (tl (voltage s)))"
proof -
  from assms(1) have "length (voltage s) = 12"
    by (simp add: declared_def NUM_SAMPLES_def)
  then obtain p0 p1 p2 p3 p4 p5 p6 p7 p8 p9 p10 p11
    where v: "voltage s = [p0, p1, p2, p3, p4, p5, p6, p7, p8, p9, p10, p11]"
    by (rule list12)
  from assms(2) have le: "p0 \<le> p1" "p1 \<le> p2" "p2 \<le> p3" "p3 \<le> p4" "p4 \<le> p5" "p5 \<le> p6"
    "p6 \<le> p7" "p7 \<le> p8" "p8 \<le> p9" "p9 \<le> p10" "p10 \<le> p11"
    unfolding v by simp_all
  have s: "sorted (take 10 (tl (voltage s)))"
    using assms(2) unfolding v by simp
  show ?thesis
    unfolding med_filter_loop_unfold [OF v]
    using s
    by (simp add: v outputs_append outputs_emission le median_sorted)
qed

theorem med_filter_monotone_witness:
  "declared (med_start [] rising) \<and> sorted (voltage (med_start [] rising))
   \<and> (\<exists>s'. med_filter_loop 0 (med_start [] rising) = Some s'
         \<and> outputs (trace s') = [1, 2, 3, 4, 5, 6, 7, 8, 9, 10])"
proof -
  let ?s = "med_start [] rising"
  have d: "declared ?s"
    by (simp add: declared_def med_start_def rising_def NUM_SAMPLES_def)
  have so: "sorted (voltage ?s)"
    by (simp add: med_start_def rising_def)
  from med_filter_monotone [OF d so] obtain s' where s': "med_filter_loop 0 ?s = Some s'"
    "outputs (trace s') = outputs (trace ?s) @ take 10 (tl (voltage ?s))"
    by blast
  have "outputs (trace s') = [1, 2, 3, 4, 5, 6, 7, 8, 9, 10]"
    unfolding s'(2) by (simp add: med_start_def rising_def)
  with d so s'(1) show ?thesis by blast
qed

text \<open>
  Claim C9. One pass through the loop body on the declared 12-element array never leaves the
  array: the sampling loop stores at the indices 1 to 10, the padding loads 1 and 10 and
  stores at 0 and 11, the filtering loop loads \<open>i\<close>, \<open>i + 1\<close>, \<open>i + 2\<close> for
  \<open>i = 0, \<dots>, 9\<close>, and every index is at most 11.
\<close>

theorem med_accesses_in_bounds:
  assumes "declared s"
  shows "\<exists>s'. med_iteration s = Some s'
     \<and> accesses s' = accesses s @ map Store [1..<11] @ [Load 1, Store 0, Load 10, Store 11]
          @ concat (map (\<lambda>i. [Load i, Load (i + 1), Load (i + 2)]) [0..<10])
     \<and> list_all (\<lambda>a. index_of a \<le> 11) (drop (length (accesses s)) (accesses s'))"
  unfolding med_iteration_unfold [OF assms]
  by (simp add: upt_rec [of 0] upt_rec [of "Suc _"] upt_rec [of 1])

theorem med_accesses_in_bounds_witness:
  "declared (med_start [1, 9, 2, 8, 3, 7, 4, 6, 5, 5] stale)
   \<and> (\<exists>s'. med_iteration (med_start [1, 9, 2, 8, 3, 7, 4, 6, 5, 5] stale) = Some s'
         \<and> length (accesses s') = 44
         \<and> list_all (\<lambda>a. index_of a \<le> 11) (accesses s'))"
proof -
  let ?s = "med_start [1, 9, 2, 8, 3, 7, 4, 6, 5, 5] stale"
  have d: "declared ?s"
    by (rule declared_med_start)
  have a: "accesses ?s = []"
    by (simp add: med_start_def)
  from med_accesses_in_bounds [OF d] obtain s' where s': "med_iteration ?s = Some s'"
    "accesses s' = accesses ?s @ map Store [1..<11] @ [Load 1, Store 0, Load 10, Store 11]
          @ concat (map (\<lambda>i. [Load i, Load (i + 1), Load (i + 2)]) [0..<10])"
    "list_all (\<lambda>a. index_of a \<le> 11) (drop (length (accesses ?s)) (accesses s'))"
    by blast
  have "length (accesses s') = 44"
    unfolding s'(2) a by (simp add: upt_rec [of 0] upt_rec [of "Suc _"] upt_rec [of 1])
  with d s'(1) s'(3) show ?thesis
    by (auto simp: a)
qed

section \<open>The strobe\<close>

lemma sampling_no_strobe: "\<not> list_ex is_strobe (sampling xs)"
  by (induction xs) (simp_all add: sampling_def)

lemma avg_setup_trace:
  "trace (avg_setup s) = trace s @
     [SetupAdcPorts ALL_ANALOG, SetupAdc ADC_CLOCK_INTERNAL, SetAdcChannel 0, DelayUs 100,
      OutputHigh PIN_C0]"
  by (simp add: avg_setup_def setup_adc_ports_def setup_adc_def set_adc_channel_def
      delay_us_def output_high_def emit_event_def)

lemma med_setup_trace:
  "trace (med_setup s) = trace s @
     [SetupAdcPorts ALL_ANALOG, SetupAdc ADC_CLOCK_INTERNAL, SetAdcChannel 0, DelayUs 100,
      OutputHigh PIN_C0]"
  by (simp add: med_setup_def setup_adc_ports_def setup_adc_def set_adc_channel_def
      delay_us_def output_high_def emit_event_def)

lemma strobed_around_append:
  "strobed_around past xs \<Longrightarrow> strobed_around (past @ xs) ys \<Longrightarrow> strobed_around past (xs @ ys)"
proof (induction xs arbitrary: past)
  case Nil
  then show ?case by simp
next
  case (Cons e xs)
  from Cons.prems(2) have "strobed_around ((past @ [e]) @ xs) ys"
    by simp
  with Cons.prems(1) Cons.IH [of "past @ [e]"] show ?case
    by (auto split: if_splits)
qed

lemma strobed_around_sampling: "strobed_around past (sampling xs)"
  by (induction xs arbitrary: past) (simp_all add: sampling_def)

lemma strobed_around_emission:
  "list_ex is_strobe past \<Longrightarrow> strobed_around past (emission v)"
  by (simp add: emission_def)

lemma list_ex_strobe_emission: "list_ex is_strobe (emission v)"
  by (simp add: emission_def)

lemma strobed_around_emissions:
  "list_ex is_strobe past \<Longrightarrow> strobed_around past (concat (map emission vs))"
proof (induction vs arbitrary: past)
  case Nil
  then show ?case by simp
next
  case (Cons v vs)
  have "strobed_around (past @ emission v) (concat (map emission vs))"
    by (rule Cons.IH) (simp add: list_ex_strobe_emission)
  with strobed_around_emission [OF Cons.prems, of v] show ?case
    by (simp add: strobed_around_append)
qed

lemma take3_length: "take 3 xs = [a, b, c] \<Longrightarrow> 3 \<le> length xs"
  by (drule arg_cong [where f = length]) simp

lemma pulse_follows_append:
  "pulse_follows xs \<Longrightarrow> pulse_follows ys \<Longrightarrow> pulse_follows (xs @ ys)"
  by (induction xs) (auto split: if_splits dest: take3_length)

lemma pulse_follows_sampling: "pulse_follows (sampling xs)"
  by (induction xs) (simp_all add: sampling_def)

lemma pulse_follows_emissions: "pulse_follows (concat (map emission vs))"
  by (induction vs) (simp_all add: emission_def)

lemma strobe_ok_pass:
  assumes "strobe_ok evs"
  shows "strobe_ok (evs @ sampling xs @ concat (map emission vs))"
proof -
  from assms have a: "strobed_around [] evs" and b: "list_ex is_strobe evs"
    and c: "pulse_follows evs"
    by (simp_all add: strobe_ok_def)
  have "strobed_around (evs @ sampling xs) (concat (map emission vs))"
    by (rule strobed_around_emissions) (simp add: b)
  then have "strobed_around evs (sampling xs @ concat (map emission vs))"
    by (rule strobed_around_append [OF strobed_around_sampling])
  then have "strobed_around ([] @ evs) (sampling xs @ concat (map emission vs))"
    by simp
  with a have d: "strobed_around [] (evs @ sampling xs @ concat (map emission vs))"
    by (rule strobed_around_append)
  have "pulse_follows (sampling xs @ concat (map emission vs))"
    by (rule pulse_follows_append [OF pulse_follows_sampling pulse_follows_emissions])
  with c have "pulse_follows (evs @ sampling xs @ concat (map emission vs))"
    by (rule pulse_follows_append)
  with d b show ?thesis
    by (simp add: strobe_ok_def)
qed

lemma strobe_ok_avg_iteration:
  "strobe_ok (trace s) \<Longrightarrow> strobe_ok (trace (avg_iteration s))"
  using strobe_ok_pass [of "trace s" "samples_read s 5" "[avg_voltage_of (fst (avg_sample_loop 0 0 s))]"]
  by (simp add: avg_iteration_unfold)

lemma strobe_ok_avg_while:
  "strobe_ok (trace s) \<Longrightarrow> strobe_ok (trace (avg_while n s))"
  by (induction n arbitrary: s) (simp_all add: strobe_ok_avg_iteration)

lemma strobe_ok_setup:
  "strobe_ok [SetupAdcPorts ALL_ANALOG, SetupAdc ADC_CLOCK_INTERNAL, SetAdcChannel 0, DelayUs 100,
      OutputHigh PIN_C0]"
  by (simp add: strobe_ok_def)

lemma declared_med_setup: "declared (med_setup s) = declared s"
  by (simp add: declared_def med_setup_def setup_adc_ports_def setup_adc_def set_adc_channel_def
      delay_us_def output_high_def emit_event_def)

lemma med_iteration_strobe_ok:
  assumes "declared s" and "strobe_ok (trace s)"
  shows "\<exists>s'. med_iteration s = Some s' \<and> declared s' \<and> strobe_ok (trace s')"
proof -
  let ?vs = "map (\<lambda>i. median (padded_window (samples_read s 10) ! i)
                  (padded_window (samples_read s 10) ! (i + 1))
                  (padded_window (samples_read s 10) ! (i + 2))) [0..<10]"
  from med_iteration_unfold [OF assms(1)] obtain s'
    where s': "med_iteration s = Some s'"
      "trace s' = trace s @ sampling (samples_read s 10) @ concat (map emission ?vs)"
      "voltage s' = padded_window (samples_read s 10)"
    by simp
  have "declared s'"
    by (simp add: declared_def s'(3) NUM_SAMPLES_def padded_window_def samples_read_def)
  moreover have "strobe_ok (trace s')"
    unfolding s'(2) by (rule strobe_ok_pass [OF assms(2)])
  ultimately show ?thesis
    using s'(1) by blast
qed

lemma med_while_strobe_ok:
  "declared s \<Longrightarrow> strobe_ok (trace s) \<Longrightarrow>
     \<exists>s'. med_while n s = Some s' \<and> declared s' \<and> strobe_ok (trace s')"
proof (induction n arbitrary: s)
  case 0
  then show ?case by simp
next
  case (Suc n)
  from med_iteration_strobe_ok [OF Suc.prems] obtain s1
    where s1: "med_iteration s = Some s1" "declared s1" "strobe_ok (trace s1)"
    by blast
  from Suc.IH [OF s1(2) s1(3)] s1(1) show ?case
    by simp
qed

text \<open>
  Claim C7. In every run of either program from reset, observed for any number of passes
  through the loop body, every write of a reduced value to port D has an operation driving
  the strobe pin \<open>PIN_C0\<close> before it and another after it. The one before is the
  \<open>output_high\<close> of the setup or of the previous emission; the write is followed at once
  by \<open>PIN_C0\<close> driven low, a delay of 10 ms and \<open>PIN_C0\<close> driven high.
\<close>

theorem strobe_toggled_around_every_write:
  "(trace s = [] \<longrightarrow>
      toggled_before_and_after (trace (avg_main n s)) \<and> pulse_follows (trace (avg_main n s)))
   \<and> (trace m = [] \<and> declared m \<longrightarrow>
        (\<exists>m'. med_main n m = Some m'
           \<and> toggled_before_and_after (trace m') \<and> pulse_follows (trace m')))"
proof -
  have a: "strobe_ok (trace (avg_main n s))" if "trace s = []"
    unfolding avg_main_def
    by (rule strobe_ok_avg_while) (simp add: avg_setup_trace that strobe_ok_setup)
  have b: "\<exists>m'. med_main n m = Some m' \<and> declared m' \<and> strobe_ok (trace m')"
    if "trace m = []" and "declared m"
    unfolding med_main_def
    by (rule med_while_strobe_ok) (simp_all add: med_setup_trace that strobe_ok_setup declared_med_setup)
  from a b show ?thesis
    by (auto simp: strobe_ok_def toggled_before_and_after_def)
qed

theorem strobe_toggled_around_every_write_witness:
  "trace (avg_start [2, 4, 6, 8, 10]) = []
   \<and> toggled_before_and_after (trace (avg_main 2 (avg_start [2, 4, 6, 8, 10])))
   \<and> pulse_follows (trace (avg_main 2 (avg_start [2, 4, 6, 8, 10])))
   \<and> trace (avg_main 1 (avg_start [2, 4, 6, 8, 10])) =
       [SetupAdcPorts ALL_ANALOG, SetupAdc ADC_CLOCK_INTERNAL, SetAdcChannel 0, DelayUs 100,
        OutputHigh PIN_C0,
        DelayMs 1, ReadAdc 2, DelayMs 1, ReadAdc 4, DelayMs 1, ReadAdc 6, DelayMs 1, ReadAdc 8,
        DelayMs 1, ReadAdc 10,
        OutputD 6, OutputLow PIN_C0, DelayMs 10, OutputHigh PIN_C0]
   \<and> trace (med_start [1, 9, 2, 8, 3, 7, 4, 6, 5, 5] stale) = []
   \<and> declared (med_start [1, 9, 2, 8, 3, 7, 4, 6, 5, 5] stale)
   \<and> (\<exists>m'. med_main 1 (med_start [1, 9, 2, 8, 3, 7, 4, 6, 5, 5] stale) = Some m'
         \<and> toggled_before_and_after (trace m') \<and> pulse_follows (trace m'))"
proof -
  let ?s = "avg_start [2, 4, 6, 8, 10]"
  let ?m = "med_start [1, 9, 2, 8, 3, 7, 4, 6, 5, 5] stale"
  have ts: "trace ?s = []"
    by (simp add: avg_start_def)
  have tm: "trace ?m = []"
    by (simp add: med_start_def)
  have d: "declared ?m"
    by (rule declared_med_start)
  have one: "trace (avg_main 1 ?s) =
       [SetupAdcPorts ALL_ANALOG, SetupAdc ADC_CLOCK_INTERNAL, SetAdcChannel 0, DelayUs 100,
        OutputHigh PIN_C0,
        DelayMs 1, ReadAdc 2, DelayMs 1, ReadAdc 4, DelayMs 1, ReadAdc 6, DelayMs 1, ReadAdc 8,
        DelayMs 1, ReadAdc 10,
        OutputD 6, OutputLow PIN_C0, DelayMs 10, OutputHigh PIN_C0]"
    by (simp add: avg_main_def avg_iteration_unfold avg_setup_trace avg_sample_loop_unfold
        avg_setup_def setup_adc_ports_def setup_adc_def set_adc_channel_def delay_us_def
        output_high_def emit_event_def avg_voltage_of_def samples_read_def sampling_def
        emission_def avg_start_def stream_of_def upt_rec [of 0] upt_rec [of "Suc _"])
  from strobe_toggled_around_every_write [of ?s 2 ?m] ts
  have a: "toggled_before_and_after (trace (avg_main 2 ?s))"
    "pulse_follows (trace (avg_main 2 ?s))"
    by simp_all
  from strobe_toggled_around_every_write [of ?s 1 ?m] tm d
  have b: "\<exists>m'. med_main 1 ?m = Some m'
         \<and> toggled_before_and_after (trace m') \<and> pulse_follows (trace m')"
    by simp
  from ts a one tm d b show ?thesis
    by simp
qed

end
